theory Spec2Isabelle
  imports Main "HOL-Library.AList" "HOL-Library.Word"
begin

section \<open>Query processing components\<close>

text \<open>
  The program is a single C++ translation unit. Strings are \<open>std::string\<close>, modelled as
  \<open>string\<close> (a list of bytes). \<open>::tolower\<close> is taken in the "C" locale: the 26 upper-case
  ASCII letters are moved down by 32, every other byte is returned as it is.
\<close>

definition tolower :: "char \<Rightarrow> char" where
  "tolower c =
     (if 65 \<le> (of_char c :: nat) \<and> (of_char c :: nat) \<le> 90
      then char_of ((of_char c :: nat) + 32) else c)"

text \<open>\<open>QueryParser::parse\<close>: \<open>std::transform\<close> with \<open>::tolower\<close> over a copy of the query.\<close>

definition parse :: "string \<Rightarrow> string" where
  "parse query = map tolower query"

text \<open>\<open>QueryOptimizer::optimize\<close>.\<close>

definition optimize :: "string \<Rightarrow> string" where
  "optimize parsed_query = ''OptimizedPlan('' @ parsed_query @ '')''"

text \<open>
  \<open>ExecutionEngine::execute\<close>: the simulated delay has no effect on the returned text and
  is left out.
\<close>

definition execute :: "string \<Rightarrow> string" where
  "execute plan = ''Result for '' @ plan"

text \<open>
  What the program writes to \<open>std::cout\<close>, one element per line. \<open>Raw_input_info input\<close>
  stands for the three lines of \<open>print_raw_input_info\<close> (the raw text, its length and
  its character codes), which are a function of \<open>input\<close> alone.
\<close>

datatype console = Line string | Raw_input_info string

section \<open>The cache store and the three policies\<close>

text \<open>
  \<open>CacheStrategy\<close> holds the store and the counters; the three subclasses add their
  queues. The subclass state is a datatype with one constructor per subclass, and the
  virtual calls \<open>admit\<close>, \<open>update\<close>, \<open>evict\<close> dispatch on it.

  The store is a \<open>std::unordered_map\<close>. It is modelled as an association list with
  pairwise distinct keys, whose order stands for the iteration order of the container
  (\<open>cache.begin()\<close> is its head). The C++ standard leaves that order open; the model
  appends a new key at the end. \<open>in_high\<close> is an association list as well; it is only
  ever looked up by key.

  \<open>capacity\<close>, \<open>cache_hits\<close> and \<open>cache_misses\<close> are C++ \<open>int\<close>: 32-bit signed words.
  \<open>++\<close> is word addition (two's complement wrap-around at \<open>INT_MAX\<close>).
\<close>

datatype policy =
    LIRS (high_interference_list: "string list") (low_interference_list: "string list")
         (in_high: "(string \<times> bool) list")
  | TinyFLU (query_queue: "string list")
  | S3FIFO (short_term: "string list") (medium_term: "string list") (long_term: "string list")

record CacheStrategy =
  capacity :: "32 word"
  cache :: "(string \<times> string) list"
  cache_hits :: "32 word"
  cache_misses :: "32 word"
  policy :: policy

text \<open>The constructors: \<open>CacheStrategy(cap)\<close> with empty queues.\<close>

definition LIRSCache :: "32 word \<Rightarrow> CacheStrategy" where
  "LIRSCache cap =
     \<lparr>capacity = cap, cache = [], cache_hits = 0, cache_misses = 0,
      policy = LIRS [] [] []\<rparr>"

definition TinyFLUCache :: "32 word \<Rightarrow> CacheStrategy" where
  "TinyFLUCache cap =
     \<lparr>capacity = cap, cache = [], cache_hits = 0, cache_misses = 0,
      policy = TinyFLU []\<rparr>"

definition S3FIFOCache :: "32 word \<Rightarrow> CacheStrategy" where
  "S3FIFOCache cap =
     \<lparr>capacity = cap, cache = [], cache_hits = 0, cache_misses = 0,
      policy = S3FIFO [] [] []\<rparr>"

text \<open>
  \<open>admit\<close>. For \<open>LIRSCache\<close>: \<open>push_back\<close> on the high list and \<open>in_high[query] = true\<close>.
\<close>

fun admit_policy :: "policy \<Rightarrow> string \<Rightarrow> policy" where
  "admit_policy (LIRS high low ih) query = LIRS (high @ [query]) low (AList.update query True ih)"
| "admit_policy (TinyFLU q) query = TinyFLU (q @ [query])"
| "admit_policy (S3FIFO st mt lt) query = S3FIFO (st @ [query]) mt lt"

definition admit :: "CacheStrategy \<Rightarrow> string \<Rightarrow> CacheStrategy" where
  "admit s query = s\<lparr>policy := admit_policy (policy s) query\<rparr>"

text \<open>
  \<open>update\<close>. The erase-remove idiom of \<open>LIRSCache\<close> and \<open>TinyFLUCache\<close> deletes every
  occurrence (\<open>removeAll\<close>); \<open>S3FIFOCache\<close> erases the one position \<open>std::find\<close> returns
  (\<open>remove1\<close>). Reading \<open>in_high[query]\<close> inserts \<open>false\<close> for a key the map does not hold.
\<close>

fun update_policy :: "policy \<Rightarrow> string \<Rightarrow> policy" where
  "update_policy (LIRS high low ih) query =
     (let ih1 = (case map_of ih query of None \<Rightarrow> AList.update query False ih | Some b \<Rightarrow> ih)
      in if map_of ih1 query = Some True
         then LIRS (removeAll query high @ [query]) low ih1
         else LIRS (high @ [query]) (removeAll query low) (AList.update query True ih1))"
| "update_policy (TinyFLU q) query = TinyFLU (removeAll query q @ [query])"
| "update_policy (S3FIFO st mt lt) query =
     (if query \<in> set st then S3FIFO (remove1 query st) (mt @ [query]) lt
      else if query \<in> set mt then S3FIFO st (remove1 query mt) (lt @ [query])
      else if query \<in> set lt then S3FIFO st mt (remove1 query lt @ [query])
      else S3FIFO st mt lt)"

definition update :: "CacheStrategy \<Rightarrow> string \<Rightarrow> CacheStrategy" where
  "update s query = s\<lparr>policy := update_policy (policy s) query\<rparr>"

text \<open>
  \<open>evict\<close>. \<open>LIRSCache\<close> and \<open>S3FIFOCache\<close> collect the victim in a local string that
  starts empty and erase it from the store only if it is not empty afterwards;
  \<open>TinyFLUCache\<close> erases the front of its queue whatever it is. The result is the lines
  printed and the new state.
\<close>

definition evict :: "CacheStrategy \<Rightarrow> console list \<times> CacheStrategy" where
  "evict s =
     (case policy s of
        LIRS high low ih \<Rightarrow>
          (let (victim, high1, low1) =
                 (if high \<noteq> [] then (hd high, tl high, low)
                  else if low \<noteq> [] then (hd low, high, tl low)
                  else if cache s \<noteq> [] then (fst (hd (cache s)), high, low)
                  else ([], high, low))
           in if victim \<noteq> []
              then ([Line (''LIRS Evicted: '' @ victim)],
                    s\<lparr>cache := AList.delete victim (cache s),
                      policy := LIRS high1 low1 (AList.delete victim ih)\<rparr>)
              else ([], s\<lparr>policy := LIRS high1 low1 ih\<rparr>))
      | TinyFLU q \<Rightarrow>
          (if q \<noteq> []
           then ([Line (''TinyFLU Evicted: '' @ hd q)],
                 s\<lparr>cache := AList.delete (hd q) (cache s), policy := TinyFLU (tl q)\<rparr>)
           else ([], s))
      | S3FIFO st mt lt \<Rightarrow>
          (let (victim, st1, mt1, lt1) =
                 (if st \<noteq> [] then (hd st, tl st, mt, lt)
                  else if mt \<noteq> [] then (hd mt, st, tl mt, lt)
                  else if lt \<noteq> [] then (hd lt, st, mt, tl lt)
                  else if cache s \<noteq> [] then (fst (hd (cache s)), st, mt, lt)
                  else ([], st, mt, lt))
           in if victim \<noteq> []
              then ([Line (''S3-FIFO Evicted: '' @ victim)],
                    s\<lparr>cache := AList.delete victim (cache s), policy := S3FIFO st1 mt1 lt1\<rparr>)
              else ([], s\<lparr>policy := S3FIFO st1 mt1 lt1\<rparr>)))"

text \<open>
  \<open>cache[query]\<close> as an rvalue: the stored value, or a freshly inserted empty string for
  a key the store does not hold.
\<close>

definition subscript :: "(string \<times> string) list \<Rightarrow> string \<Rightarrow> string \<times> (string \<times> string) list" where
  "subscript c query =
     (case map_of c query of
        Some v \<Rightarrow> (v, c)
      | None \<Rightarrow> ([], AList.update query [] c))"

text \<open>\<open>CacheStrategy::get\<close>: the returned text and the new state.\<close>

definition get :: "CacheStrategy \<Rightarrow> string \<Rightarrow> string \<times> CacheStrategy" where
  "get s query =
     (case map_of (cache s) query of
        Some _ \<Rightarrow>
          (let s1 = s\<lparr>cache_hits := cache_hits s + 1\<rparr>;
               s2 = update s1 query;
               (v, c) = subscript (cache s2) query
           in (v, s2\<lparr>cache := c\<rparr>))
      | None \<Rightarrow> ([], s\<lparr>cache_misses := cache_misses s + 1\<rparr>))"

text \<open>
  \<open>(size_t)capacity\<close>: the signed 32-bit value converted to an unsigned 64-bit one.
\<close>

definition size_t_of :: "32 word \<Rightarrow> nat" where
  "size_t_of c = nat (sint c mod 2 ^ 64)"

text \<open>\<open>CacheStrategy::put\<close>: the lines printed (by \<open>evict\<close>) and the new state.\<close>

definition put :: "CacheStrategy \<Rightarrow> string \<Rightarrow> string \<Rightarrow> console list \<times> CacheStrategy" where
  "put s query result =
     (case map_of (cache s) query of
        Some _ \<Rightarrow> ([], update s query)
      | None \<Rightarrow>
          (let (out, s1) = (if size_t_of (capacity s) \<le> length (cache s) then evict s else ([], s));
               s2 = s1\<lparr>cache := AList.update query result (cache s1)\<rparr>
           in (out, admit s2 query)))"

section \<open>The database system\<close>

text \<open>
  \<open>DatabaseSystem\<close> owns the active strategy through the raw pointer \<open>cache_strategy\<close>;
  its other members (parser, optimizer, engine, transaction and lock manager) carry no
  state. Between two member calls the pointer refers to a live object, which is the
  field of the record.
\<close>

record DatabaseSystem =
  cache_strategy :: CacheStrategy

text \<open>The constructor: \<open>cache_strategy(new LIRSCache(5))\<close>.\<close>

definition new_DatabaseSystem :: DatabaseSystem where
  "new_DatabaseSystem = \<lparr>cache_strategy = LIRSCache 5\<rparr>"

text \<open>
  \<open>std::string::find_first_not_of\<close>, \<open>find_last_not_of\<close> (\<open>None\<close> is \<open>npos\<close>) and
  \<open>substr\<close>, as \<open>trim\<close> uses them.
\<close>

fun find_first_not_of :: "string \<Rightarrow> char \<Rightarrow> nat option" where
  "find_first_not_of [] c = None"
| "find_first_not_of (x # xs) c =
     (if x \<noteq> c then Some 0 else map_option Suc (find_first_not_of xs c))"

definition find_last_not_of :: "string \<Rightarrow> char \<Rightarrow> nat option" where
  "find_last_not_of str c =
     map_option (\<lambda>i. length str - 1 - i) (find_first_not_of (rev str) c)"

definition substr :: "string \<Rightarrow> nat \<Rightarrow> nat \<Rightarrow> string" where
  "substr str pos n = take n (drop pos str)"

definition trim :: "string \<Rightarrow> string" where
  "trim str =
     (case (find_first_not_of str CHR '' '', find_last_not_of str CHR '' '') of
        (Some first, Some lst) \<Rightarrow> substr str first (lst - first + 1)
      | _ \<Rightarrow> [])"

text \<open>
  \<open>delete\<close> on a pointer. A pointer is either live or refers to an object that has been
  deleted already; deleting the latter is undefined behaviour in C++ and is the one
  error of the model.
\<close>

datatype error = Double_delete

datatype 'a pointer = Live 'a | Deleted

fun delete_object :: "'a pointer \<Rightarrow> error + 'a pointer" where
  "delete_object (Live obj) = Inr Deleted"
| "delete_object Deleted = Inl Double_delete"

text \<open>
  \<open>DatabaseSystem::set_cache_strategy\<close>. The function deletes the current strategy on
  entry, and once more in its last branch before it assigns the default. The result
  is the lines printed so far and either the error or the new system.
\<close>

definition set_cache_strategy ::
  "DatabaseSystem \<Rightarrow> string \<Rightarrow> console list \<times> (error + DatabaseSystem)" where
  "set_cache_strategy db strategy =
     (case delete_object (Live (cache_strategy db)) of
        Inl e \<Rightarrow> ([], Inl e)
      | Inr p \<Rightarrow>
          (let strat = map tolower (trim strategy);
               out = [Raw_input_info strategy,
                      Line (''DEBUG: Processed strategy (after trim and lowercase): ''
                            @ [CHR 0x27] @ strat @ [CHR 0x27])]
           in if strat = ''lirs''
              then (out @ [Line ''Caching strategy set to LIRS.''],
                    Inr (db\<lparr>cache_strategy := LIRSCache 5\<rparr>))
              else if strat = ''tinyflu''
              then (out @ [Line ''Caching strategy set to TinyFLU.''],
                    Inr (db\<lparr>cache_strategy := TinyFLUCache 5\<rparr>))
              else if strat = ''s3fifo'' \<or> strat = ''s3-fifo''
              then (out @ [Line ''Caching strategy set to S3-FIFO.''],
                    Inr (db\<lparr>cache_strategy := S3FIFOCache 5\<rparr>))
              else (let out1 = out @ [Line ''Invalid caching strategy selected. Defaulting to LIRS.'']
                    in case delete_object p of
                         Inl e \<Rightarrow> (out1, Inl e)
                       | Inr _ \<Rightarrow> (out1, Inr (db\<lparr>cache_strategy := LIRSCache 5\<rparr>)))))"

text \<open>
  \<open>DatabaseSystem::process_query\<close>: the lines printed, the returned text and the new
  system. \<open>LockManager::acquire\<close> prints its line and \<open>process_query\<close> prints the same
  line again.
\<close>

definition process_query ::
  "DatabaseSystem \<Rightarrow> string \<Rightarrow> console list \<times> string \<times> DatabaseSystem" where
  "process_query db query =
     (let parsed_query = parse query;
          plan = optimize parsed_query;
          (cached_result, s1) = get (cache_strategy db) query
      in if cached_result \<noteq> []
         then ([Line ''Cache hit!''], cached_result, db\<lparr>cache_strategy := s1\<rparr>)
         else (let result = execute plan;
                   (out, s2) = put s1 query result
               in ([Line ''Cache miss! Executing query...'',
                    Line ''Lock acquired on table.'',
                    Line ''Lock acquired on table.'',
                    Line ''Transaction started.'',
                    Line ''Transaction committed.'',
                    Line ''Lock released on table.''] @ out,
                   result, db\<lparr>cache_strategy := s2\<rparr>)))"

section \<open>Drivers and the wording of the specification\<close>

text \<open>A run of \<open>put\<close> calls, collecting what they print.\<close>

fun put_all :: "CacheStrategy \<Rightarrow> (string \<times> string) list \<Rightarrow> console list \<times> CacheStrategy" where
  "put_all s [] = ([], s)"
| "put_all s ((k, v) # kvs) =
     (let (out, s1) = put s k v; (outs, s2) = put_all s1 kvs in (out @ outs, s2))"

text \<open>The name a policy prints in front of the key it evicts.\<close>

fun policy_label :: "policy \<Rightarrow> string" where
  "policy_label (LIRS high low ih) = ''LIRS''"
| "policy_label (TinyFLU q) = ''TinyFLU''"
| "policy_label (S3FIFO st mt lt) = ''S3-FIFO''"

text \<open>A run of \<open>process_query\<close> calls from a given system.\<close>

fun process_all :: "DatabaseSystem \<Rightarrow> string list \<Rightarrow> (console list \<times> string) list \<times> DatabaseSystem" where
  "process_all db [] = ([], db)"
| "process_all db (q # qs) =
     (let (out, r, db1) = process_query db q; (rs, db2) = process_all db1 qs
      in ((out, r) # rs, db2))"

text \<open>
  The specification's normalisation of a strategy name: "surrounding whitespace ignored,
  case-insensitive". Whitespace is what \<open>isspace\<close> accepts in the "C" locale: space,
  tab, line feed, vertical tab, form feed, carriage return.
\<close>

definition spec_is_whitespace :: "char \<Rightarrow> bool" where
  "spec_is_whitespace c = (c \<in> set [CHR '' '', CHR 0x09, CHR 0x0A, CHR 0x0B, CHR 0x0C, CHR 0x0D])"

definition strip :: "(char \<Rightarrow> bool) \<Rightarrow> string \<Rightarrow> string" where
  "strip p str = rev (dropWhile p (rev (dropWhile p str)))"

definition spec_normalize_name :: "string \<Rightarrow> string" where
  "spec_normalize_name str = map tolower (strip spec_is_whitespace str)"

text \<open>The same with the space character alone, which is what \<open>trim\<close> removes.\<close>

definition strip_spaces :: "string \<Rightarrow> string" where
  "strip_spaces str = strip (\<lambda>c. c = CHR '' '') str"

text \<open>
  A run of \<open>get\<close> and \<open>put\<close> calls against one cache: what the calls print and the
  state they leave. \<open>hit_free\<close> says that no \<open>get\<close> of the run finds its key;
  \<open>admissions\<close> are the key-value pairs the run puts, in order, and \<open>lookups\<close> counts its
  \<open>get\<close> calls.
\<close>

datatype call = Get string | Put string string

fun call_key :: "call \<Rightarrow> string" where
  "call_key (Get k) = k"
| "call_key (Put k v) = k"

fun run :: "CacheStrategy \<Rightarrow> call list \<Rightarrow> console list \<times> CacheStrategy" where
  "run s [] = ([], s)"
| "run s (Get k # cs) = run (snd (get s k)) cs"
| "run s (Put k v # cs) =
     (let (out, s1) = put s k v; (outs, s2) = run s1 cs in (out @ outs, s2))"

fun hit_free :: "CacheStrategy \<Rightarrow> call list \<Rightarrow> bool" where
  "hit_free s [] = True"
| "hit_free s (Get k # cs) = (map_of (cache s) k = None \<and> hit_free (snd (get s k)) cs)"
| "hit_free s (Put k v # cs) = hit_free (snd (put s k v)) cs"

fun admissions :: "call list \<Rightarrow> (string \<times> string) list" where
  "admissions [] = []"
| "admissions (Get k # cs) = admissions cs"
| "admissions (Put k v # cs) = (k, v) # admissions cs"

fun lookups :: "call list \<Rightarrow> nat" where
  "lookups [] = 0"
| "lookups (Get k # cs) = Suc (lookups cs)"
| "lookups (Put k v # cs) = lookups cs"

text \<open>
  The bookkeeping the policies rely on. \<open>queued\<close> is every key a policy holds, in the
  order \<open>evict\<close> would take them. \<open>flagged\<close> says of a \<open>LIRSCache\<close> that the low list is
  empty and every key of the high list is marked in \<open>in_high\<close>. \<open>erases_any_victim\<close>
  tells the policy whose \<open>evict\<close> erases the victim without testing it for emptiness.
  A state is \<open>consistent\<close> when the store and the queues hold the same keys, each once,
  the empty key is absent unless the policy can evict it, and the store is within the
  capacity.
\<close>

fun queued :: "policy \<Rightarrow> string list" where
  "queued (LIRS high low ih) = high @ low"
| "queued (TinyFLU q) = q"
| "queued (S3FIFO st mt lt) = st @ mt @ lt"

fun flagged :: "policy \<Rightarrow> bool" where
  "flagged (LIRS high low ih) = (low = [] \<and> list_all (\<lambda>k. map_of ih k = Some True) high)"
| "flagged (TinyFLU q) = True"
| "flagged (S3FIFO st mt lt) = True"

fun erases_any_victim :: "policy \<Rightarrow> bool" where
  "erases_any_victim (LIRS high low ih) = False"
| "erases_any_victim (TinyFLU q) = True"
| "erases_any_victim (S3FIFO st mt lt) = False"

definition consistent :: "CacheStrategy \<Rightarrow> bool" where
  "consistent s =
     (distinct (map fst (cache s)) \<and> distinct (queued (policy s)) \<and>
      set (queued (policy s)) = set (map fst (cache s)) \<and> flagged (policy s) \<and>
      (erases_any_victim (policy s) \<or> [] \<notin> set (map fst (cache s))) \<and>
      length (cache s) \<le> size_t_of (capacity s))"

text \<open>
  The specification's picture of a policy that has seen no hit: a plain first-in
  first-out queue. \<open>spec_fifo_policy p ks\<close> is the policy of the kind of \<open>p\<close> whose queue of
  first admission holds the keys \<open>ks\<close>, oldest first, and whose other queues are empty;
  \<open>spec_fifo_state s0 window\<close> is the cache \<open>s0\<close> with the store and that queue holding
  the entries \<open>window\<close>.
\<close>

fun spec_fifo_policy :: "policy \<Rightarrow> string list \<Rightarrow> policy" where
  "spec_fifo_policy (LIRS high low ih) ks = LIRS ks [] (map (\<lambda>k. (k, True)) ks)"
| "spec_fifo_policy (TinyFLU q) ks = TinyFLU ks"
| "spec_fifo_policy (S3FIFO st mt lt) ks = S3FIFO ks [] []"

definition spec_fifo_state :: "CacheStrategy \<Rightarrow> (string \<times> string) list \<Rightarrow> CacheStrategy" where
  "spec_fifo_state s0 window =
     s0\<lparr>cache := window, policy := spec_fifo_policy (policy s0) (map fst window)\<rparr>"

section \<open>Lookups: hits and misses\<close>

text \<open>
  C10. A \<open>get\<close> for a key the store does not hold returns the empty text and adds one
  to the miss counter; the store, the hit counter, the capacity and the queues of the
  policy are what they were, since the result is the old state with only
  \<open>cache_misses\<close> replaced (no \<open>update\<close> takes place).
\<close>

theorem get_miss_frame:
  assumes "map_of (cache s) key = None"
  shows "get s key = ([], s\<lparr>cache_misses := cache_misses s + 1\<rparr>)"
  using assms by (simp add: get_def)

theorem get_miss_frame_witness:
  "map_of (cache (S3FIFOCache 5)) ''select 1'' = None \<and>
   get (S3FIFOCache 5) ''select 1'' =
     ([], (S3FIFOCache 5)\<lparr>cache_misses := cache_misses (S3FIFOCache 5) + 1\<rparr>)"
proof -
  have absent: "map_of (cache (S3FIFOCache 5)) ''select 1'' = None"
    by (simp add: S3FIFOCache_def)
  from absent get_miss_frame [OF absent] show ?thesis by simp
qed

lemma cache_update: "cache (update s key) = cache s"
  by (simp add: update_def)

lemma cache_admit: "cache (admit s key) = cache s"
  by (simp add: admit_def)

lemma subscript_present: "map_of c key = Some v \<Longrightarrow> subscript c key = (v, c)"
  by (simp add: subscript_def)

lemma get_hit:
  assumes "map_of (cache s) key = Some v"
  shows "get s key =
     (v, s\<lparr>cache_hits := cache_hits s + 1, policy := update_policy (policy s) key\<rparr>)"
  using assms by (simp add: get_def update_def subscript_present)

lemma put_present:
  assumes "map_of (cache s) key = Some v"
  shows "put s key v' = ([], s\<lparr>policy := update_policy (policy s) key\<rparr>)"
  using assms by (simp add: put_def update_def)

text \<open>Any number of lookups of a cached key, one after the other.\<close>

lemma repeated_hits:
  assumes "map_of (cache s) key = Some v"
  shows "map_of (cache (((\<lambda>t. snd (get t key)) ^^ n) s)) key = Some v \<and>
         cache_hits (((\<lambda>t. snd (get t key)) ^^ n) s) = cache_hits s + of_nat n \<and>
         cache_misses (((\<lambda>t. snd (get t key)) ^^ n) s) = cache_misses s"
proof (induction n)
  case 0
  from assms show ?case by simp
next
  case (Suc n)
  let ?t = "((\<lambda>t. snd (get t key)) ^^ n) s"
  from Suc have "map_of (cache ?t) key = Some v" by simp
  then have "get ?t key =
      (v, ?t\<lparr>cache_hits := cache_hits ?t + 1, policy := update_policy (policy ?t) key\<rparr>)"
    by (rule get_hit)
  with Suc show ?case by simp
qed

text \<open>
  C8. For a key the store holds with value \<open>v\<close>: \<open>get\<close> returns \<open>v\<close> and changes the
  state in two places only, the hit counter (one more) and the queues of the policy;
  \<open>put\<close> with any value \<open>v'\<close> prints nothing and changes the queues of the policy only.
  After either call the store still binds the key to \<open>v\<close>.
\<close>

theorem hit_keeps_value:
  assumes "map_of (cache s) key = Some v"
  shows "get s key =
           (v, s\<lparr>cache_hits := cache_hits s + 1, policy := update_policy (policy s) key\<rparr>) \<and>
         put s key v' = ([], s\<lparr>policy := update_policy (policy s) key\<rparr>) \<and>
         cache (snd (get s key)) = cache s \<and>
         cache (snd (put s key v')) = cache s \<and>
         map_of (cache (snd (get s key))) key = Some v \<and>
         map_of (cache (snd (put s key v'))) key = Some v"
  using assms get_hit [OF assms] put_present [OF assms, of v'] by simp

theorem hit_keeps_value_witness:
  "map_of (cache (snd (put (LIRSCache 5) ''q'' ''old''))) ''q'' = Some ''old'' \<and>
   fst (get (snd (put (LIRSCache 5) ''q'' ''old'')) ''q'') = ''old'' \<and>
   cache_hits (snd (get (snd (put (LIRSCache 5) ''q'' ''old'')) ''q'')) = 1 \<and>
   map_of (cache (snd (put (snd (put (LIRSCache 5) ''q'' ''old'')) ''q'' ''new''))) ''q''
     = Some ''old''"
proof -
  let ?s = "snd (put (LIRSCache 5) ''q'' ''old'')"
  have present: "map_of (cache ?s) ''q'' = Some ''old''"
    by code_simp
  have zero: "cache_hits ?s = 0"
    by code_simp
  from hit_keeps_value [OF present, of "''new''"] present zero show ?thesis by simp
qed

section \<open>The pipeline\<close>

text \<open>
  C9. When the store binds the submitted query to the empty text, \<open>process_query\<close>
  takes the miss branch: it prints the miss line, runs the engine on the plan and returns
  the fresh result. The lookup itself was counted as a hit, and the \<open>put\<close> that follows
  finds the key present, so the store keeps the empty value.
\<close>

theorem empty_value_is_a_miss:
  assumes "map_of (cache (cache_strategy db)) query = Some []"
  shows "process_query db query =
     ([Line ''Cache miss! Executing query...'',
       Line ''Lock acquired on table.'',
       Line ''Lock acquired on table.'',
       Line ''Transaction started.'',
       Line ''Transaction committed.'',
       Line ''Lock released on table.''],
      execute (optimize (parse query)),
      db\<lparr>cache_strategy := (cache_strategy db)
           \<lparr>cache_hits := cache_hits (cache_strategy db) + 1,
            policy := update_policy (update_policy (policy (cache_strategy db)) query) query\<rparr>\<rparr>)"
  using assms by (simp add: process_query_def get_def put_def subscript_def update_def)

theorem empty_value_is_a_miss_witness:
  "map_of (cache (cache_strategy
       \<lparr>cache_strategy = snd (put (TinyFLUCache 5) ''Q'' [])\<rparr>)) ''Q'' = Some [] \<and>
   fst (snd (process_query \<lparr>cache_strategy = snd (put (TinyFLUCache 5) ''Q'' [])\<rparr> ''Q''))
     = ''Result for OptimizedPlan(q)'' \<and>
   hd (fst (process_query \<lparr>cache_strategy = snd (put (TinyFLUCache 5) ''Q'' [])\<rparr> ''Q''))
     = Line ''Cache miss! Executing query...''"
proof -
  let ?db = "\<lparr>cache_strategy = snd (put (TinyFLUCache 5) ''Q'' [])\<rparr>"
  have present: "map_of (cache (cache_strategy ?db)) ''Q'' = Some []"
    by code_simp
  have result: "execute (optimize (parse ''Q'')) = ''Result for OptimizedPlan(q)''"
    by code_simp
  from empty_value_is_a_miss [OF present] present result show ?thesis by simp
qed

section \<open>Insertion and eviction\<close>

text \<open>The reference capacity, as \<open>put\<close> compares it with the size of the store.\<close>

lemma size_t_of_5: "size_t_of 5 = 5"
  by (simp add: size_t_of_def)

lemma update_absent: "map_of c k = None \<Longrightarrow> AList.update k v c = c @ [(k, v)]"
  by (induction c) (auto split: if_splits)

lemma put_absent_room:
  assumes "map_of (cache s) k = None" "length (cache s) < size_t_of (capacity s)"
  shows "put s k v = ([], s\<lparr>cache := cache s @ [(k, v)], policy := admit_policy (policy s) k\<rparr>)"
  using assms by (simp add: put_def admit_def update_absent)

lemma put_absent_full:
  assumes "map_of (cache s) k = None" "size_t_of (capacity s) \<le> length (cache s)"
  shows "put s k v =
     (fst (evict s),
      (snd (evict s))\<lparr>cache := AList.update k v (cache (snd (evict s))),
                       policy := admit_policy (policy (snd (evict s))) k\<rparr>)"
  using assms by (simp add: put_def admit_def split_beta)

lemma put_all_snoc:
  "put_all s (kvs @ [(k, v)]) =
     (fst (put_all s kvs) @ fst (put (snd (put_all s kvs)) k v),
      snd (put (snd (put_all s kvs)) k v))"
  by (induction kvs arbitrary: s) (auto simp: split_beta)

lemma fill_five:
  assumes "s0 = LIRSCache 5 \<or> s0 = TinyFLUCache 5 \<or> s0 = S3FIFOCache 5"
    and "distinct [k1, k2, k3, k4, k5]"
  shows "put_all s0 [(k1, v1), (k2, v2), (k3, v3), (k4, v4), (k5, v5)] =
     ([], \<lparr>capacity = 5, cache = [(k1, v1), (k2, v2), (k3, v3), (k4, v4), (k5, v5)],
           cache_hits = 0, cache_misses = 0,
           policy = (admit_policy (admit_policy (admit_policy (admit_policy (admit_policy
                      (policy s0) k1) k2) k3) k4) k5)\<rparr>)"
proof -
  from assms(2) have ne: "k2 \<noteq> k1" "k3 \<noteq> k1" "k3 \<noteq> k2" "k4 \<noteq> k1" "k4 \<noteq> k2" "k4 \<noteq> k3"
    "k5 \<noteq> k1" "k5 \<noteq> k2" "k5 \<noteq> k3" "k5 \<noteq> k4" by auto
  from assms(1) show ?thesis
    by (elim disjE)
      (simp_all add: put_absent_room LIRSCache_def TinyFLUCache_def S3FIFOCache_def
        size_t_of_5 ne ne [symmetric])
qed

lemma sixth_put:
  assumes "p = LIRS [k1, k2, k3, k4, k5] [] ih \<or> p = TinyFLU [k1, k2, k3, k4, k5]
           \<or> p = S3FIFO [k1, k2, k3, k4, k5] [] []"
    and "distinct [k1, k2, k3, k4, k5, k6]" and "k1 \<noteq> []"
  shows "fst (put \<lparr>capacity = 5, cache = [(k1, v1), (k2, v2), (k3, v3), (k4, v4), (k5, v5)],
           cache_hits = h, cache_misses = m, policy = p\<rparr> k6 v6) =
           [Line (policy_label p @ '' Evicted: '' @ k1)] \<and>
         cache (snd (put \<lparr>capacity = 5, cache = [(k1, v1), (k2, v2), (k3, v3), (k4, v4), (k5, v5)],
           cache_hits = h, cache_misses = m, policy = p\<rparr> k6 v6)) =
           [(k2, v2), (k3, v3), (k4, v4), (k5, v5), (k6, v6)]"
proof -
  from assms(2) have ne: "k2 \<noteq> k1" "k3 \<noteq> k1" "k4 \<noteq> k1" "k5 \<noteq> k1" "k6 \<noteq> k1"
    "k6 \<noteq> k2" "k6 \<noteq> k3" "k6 \<noteq> k4" "k6 \<noteq> k5" by auto
  from assms(1) assms(3) show ?thesis
    by (elim disjE) (simp_all add: put_absent_full size_t_of_5 evict_def ne ne [symmetric])
qed

text \<open>
  The reference configuration: capacity 5 and six distinct non-empty keys put in order
  into the fresh cache. The first five calls print nothing and fill the store; the
  sixth prints the eviction of the first key and leaves the other five.
\<close>

lemma six_keys_at_capacity_5:
  assumes "s0 = LIRSCache 5 \<or> s0 = TinyFLUCache 5 \<or> s0 = S3FIFOCache 5"
    and "distinct [k1, k2, k3, k4, k5, k6]"
    and "[] \<notin> set [k1, k2, k3, k4, k5, k6]"
  shows "fst (put_all s0 [(k1, v1), (k2, v2), (k3, v3), (k4, v4), (k5, v5)]) = [] \<and>
         cache (snd (put_all s0 [(k1, v1), (k2, v2), (k3, v3), (k4, v4), (k5, v5)])) =
           [(k1, v1), (k2, v2), (k3, v3), (k4, v4), (k5, v5)] \<and>
         fst (put (snd (put_all s0 [(k1, v1), (k2, v2), (k3, v3), (k4, v4), (k5, v5)])) k6 v6) =
           [Line (policy_label (policy s0) @ '' Evicted: '' @ k1)] \<and>
         cache (snd (put (snd (put_all s0 [(k1, v1), (k2, v2), (k3, v3), (k4, v4), (k5, v5)])) k6 v6)) =
           [(k2, v2), (k3, v3), (k4, v4), (k5, v5), (k6, v6)]"
proof -
  from assms(2) have d5: "distinct [k1, k2, k3, k4, k5]" by simp
  from assms(3) have k1: "k1 \<noteq> []" by auto
  let ?p = "admit_policy (admit_policy (admit_policy (admit_policy (admit_policy
                      (policy s0) k1) k2) k3) k4) k5"
  have p: "?p = LIRS [k1, k2, k3, k4, k5] [] [(k1, True), (k2, True), (k3, True), (k4, True), (k5, True)]
           \<or> ?p = TinyFLU [k1, k2, k3, k4, k5]
           \<or> ?p = S3FIFO [k1, k2, k3, k4, k5] [] []"
    using assms(1) d5 by (auto simp: LIRSCache_def TinyFLUCache_def S3FIFOCache_def)
  have label: "policy_label ?p = policy_label (policy s0)"
    using assms(1) by (auto simp: LIRSCache_def TinyFLUCache_def S3FIFOCache_def)
  note five = fill_five [OF assms(1) d5, of v1 v2 v3 v4 v5]
  note six = sixth_put [OF p assms(2) k1, of v1 v2 v3 v4 v5 0 0 v6]
  from five six label show ?thesis by simp
qed


text \<open>
  Without a hit the three policies are one first-in first-out queue. A \<open>put\<close> of a new
  key into such a state appends while there is room and otherwise drops the oldest
  entry first.
\<close>

lemma map_of_flags: "map_of (map (\<lambda>k. (k, True)) ks) k = (if k \<in> set ks then Some True else None)"
  by (induction ks) auto

lemma flags_snoc:
  "k \<notin> set ks \<Longrightarrow>
   AList.update k True (map (\<lambda>k. (k, True)) ks) = map (\<lambda>k. (k, True)) (ks @ [k])"
  by (simp add: update_absent map_of_flags)

lemma flags_delete:
  "k \<notin> set ks \<Longrightarrow> AList.delete k (map (\<lambda>k. (k, True)) ks) = map (\<lambda>k. (k, True)) ks"
  by (induction ks) auto

lemma admit_spec_fifo:
  "admit_policy (spec_fifo_policy p ks) k = spec_fifo_policy p (ks @ [k])
   \<or> (k \<in> set ks \<and> is_LIRS p)"
  by (cases p) (auto simp: flags_snoc)

lemma put_fifo_room:
  assumes "k \<notin> set (map fst w)" and "length w < size_t_of (capacity s0)"
  shows "put (spec_fifo_state s0 w) k v = ([], spec_fifo_state s0 (w @ [(k, v)]))"
proof -
  from assms(1) have absent: "map_of (cache (spec_fifo_state s0 w)) k = None"
    by (simp add: spec_fifo_state_def map_of_eq_None_iff)
  from assms(2) have room:
    "length (cache (spec_fifo_state s0 w)) < size_t_of (capacity (spec_fifo_state s0 w))"
    by (simp add: spec_fifo_state_def)
  from admit_spec_fifo [of "policy s0" "map fst w" k] assms(1)
  have "admit_policy (spec_fifo_policy (policy s0) (map fst w)) k =
        spec_fifo_policy (policy s0) (map fst w @ [k])" by auto
  then show ?thesis
    unfolding put_absent_room [OF absent room] by (simp add: spec_fifo_state_def)
qed

lemma evict_fifo:
  assumes "k1 \<noteq> []" and "k1 \<notin> set (map fst w)"
  shows "evict (spec_fifo_state s0 ((k1, v1) # w)) =
           ([Line (policy_label (policy s0) @ '' Evicted: '' @ k1)], spec_fifo_state s0 w)"
  using assms
  by (cases "policy s0") (auto simp add: evict_def spec_fifo_state_def flags_delete simp del: map_map)

lemma put_fifo_full:
  assumes "k \<notin> set (map fst ((k1, v1) # w))" and "k1 \<notin> set (map fst w)" and "k1 \<noteq> []"
    and "size_t_of (capacity s0) \<le> length ((k1, v1) # w)"
  shows "put (spec_fifo_state s0 ((k1, v1) # w)) k v =
           ([Line (policy_label (policy s0) @ '' Evicted: '' @ k1)],
            spec_fifo_state s0 (w @ [(k, v)]))"
proof -
  let ?s = "spec_fifo_state s0 ((k1, v1) # w)"
  from assms(1) have absent: "map_of (cache ?s) k = None"
    by (simp add: spec_fifo_state_def map_of_eq_None_iff)
  from assms(4) have full: "size_t_of (capacity ?s) \<le> length (cache ?s)"
    by (simp add: spec_fifo_state_def)
  note ev = evict_fifo [OF assms(3) assms(2), of s0 v1]
  from assms(1) have kw: "k \<notin> set (map fst w)" by simp
  then have "map_of w k = None" by (simp add: map_of_eq_None_iff)
  then have upd: "AList.update k v w = w @ [(k, v)]" by (rule update_absent)
  from admit_spec_fifo [of "policy s0" "map fst w" k] kw
  have "admit_policy (spec_fifo_policy (policy s0) (map fst w)) k =
        spec_fifo_policy (policy s0) (map fst w @ [k])" by auto
  then show ?thesis
    unfolding put_absent_full [OF absent full] ev
    by (simp add: spec_fifo_state_def upd)
qed

lemma put_all_fifo:
  assumes "1 \<le> size_t_of (capacity s0)"
    and "distinct (map fst kvs)" and "[] \<notin> set (map fst kvs)"
  shows "put_all (spec_fifo_state s0 []) kvs =
     (map (\<lambda>k. Line (policy_label (policy s0) @ '' Evicted: '' @ k))
          (map fst (take (length kvs - size_t_of (capacity s0)) kvs)),
      spec_fifo_state s0 (drop (length kvs - size_t_of (capacity s0)) kvs))"
  using assms(2,3)
proof (induction kvs rule: rev_induct)
  case Nil
  show ?case by simp
next
  case (snoc kv kvs)
  obtain k v where kv: "kv = (k, v)" by (cases kv)
  let ?n = "size_t_of (capacity s0)"
  from snoc.prems have d: "distinct (map fst kvs)" and ne: "[] \<notin> set (map fst kvs)"
    and knew: "k \<notin> set (map fst kvs)"
    by (auto simp: kv)
  note IH = snoc.IH [OF d ne]
  show ?case
  proof (cases "length kvs < ?n")
    case True
    then have z: "length kvs - ?n = 0" "Suc (length kvs) - ?n = 0" by auto
    from put_fifo_room [of k kvs s0 v] knew True
    have "put (spec_fifo_state s0 kvs) k v = ([], spec_fifo_state s0 (kvs @ [(k, v)]))" by simp
    with IH z show ?thesis by (simp add: put_all_snoc kv)
  next
    case False
    define i where "i = length kvs - ?n"
    from False assms(1) have i: "i < length kvs" "Suc (length kvs) - ?n = Suc i"
      by (auto simp: i_def)
    have win: "drop i kvs = kvs ! i # drop (Suc i) kvs"
      using i(1) by (simp add: Cons_nth_drop_Suc)
    obtain k1 v1 where k1: "kvs ! i = (k1, v1)" by (cases "kvs ! i")
    have "k1 \<in> set (map fst kvs)"
      using i(1) k1 by (metis fst_conv nth_map nth_mem length_map)
    with ne have k1ne: "k1 \<noteq> []" by force
    from d have "distinct (map fst (drop i kvs))" by (simp add: drop_map [symmetric])
    with win k1 have k1w: "k1 \<notin> set (map fst (drop (Suc i) kvs))" by simp
    have "set (map fst (drop i kvs)) \<subseteq> set (map fst kvs)"
      by (metis set_drop_subset drop_map)
    with knew win k1 have kw: "k \<notin> set (map fst ((k1, v1) # drop (Suc i) kvs))" by auto
    have "length (drop i kvs) = ?n" using False by (simp add: i_def)
    with win k1 have full: "?n \<le> length ((k1, v1) # drop (Suc i) kvs)" by simp
    from put_fifo_full [OF kw k1w k1ne full, of v]
    have step: "put (spec_fifo_state s0 (drop i kvs)) k v =
           ([Line (policy_label (policy s0) @ '' Evicted: '' @ k1)],
            spec_fifo_state s0 (drop (Suc i) kvs @ [(k, v)]))"
      by (simp add: win k1)
    have tk: "take (Suc i) kvs = take i kvs @ [(k1, v1)]"
      using i(1) k1 by (simp add: take_Suc_conv_app_nth)
    from IH step tk i show ?thesis
      by (simp add: put_all_snoc kv i_def [symmetric])
  qed
qed

lemma fresh_is_fifo_state:
  assumes "s0 = LIRSCache cap \<or> s0 = TinyFLUCache cap \<or> s0 = S3FIFOCache cap"
  shows "spec_fifo_state s0 [] = s0 \<and> capacity s0 = cap \<and> cache_misses s0 = 0"
  using assms by (auto simp: spec_fifo_state_def LIRSCache_def TinyFLUCache_def S3FIFOCache_def)

lemma evict_ignores_misses:
  "evict (s\<lparr>cache_misses := m\<rparr>) = (fst (evict s), (snd (evict s))\<lparr>cache_misses := m\<rparr>)"
  by (cases "policy s") (auto simp: evict_def Let_def split: prod.splits)

lemma put_ignores_misses:
  "put (s\<lparr>cache_misses := m\<rparr>) k v = (fst (put s k v), (snd (put s k v))\<lparr>cache_misses := m\<rparr>)"
  by (simp add: put_def evict_ignores_misses update_def admit_def split_beta Let_def
      split: option.splits)

lemma put_all_ignores_misses:
  "put_all (s\<lparr>cache_misses := m\<rparr>) kvs =
     (fst (put_all s kvs), (snd (put_all s kvs))\<lparr>cache_misses := m\<rparr>)"
proof (induction kvs arbitrary: s)
  case Nil
  show ?case by simp
next
  case (Cons kv kvs)
  obtain k v where kv: "kv = (k, v)" by (cases kv)
  show ?case
    by (simp add: kv put_ignores_misses [where s = s and m = m and k = k and v = v] Cons.IH split_beta)
qed

lemma hit_free_run:
  assumes "hit_free s calls"
  shows "run s calls =
     (fst (put_all s (admissions calls)),
      (snd (put_all s (admissions calls)))\<lparr>cache_misses := cache_misses s + of_nat (lookups calls)\<rparr>)"
  using assms
proof (induction calls arbitrary: s)
  case Nil
  show ?case by simp
next
  case (Cons c calls)
  show ?case
  proof (cases c)
    case (Get k)
    with Cons.prems have miss: "map_of (cache s) k = None"
      and hf: "hit_free (snd (get s k)) calls" by simp_all
    from miss have g: "snd (get s k) = s\<lparr>cache_misses := cache_misses s + 1\<rparr>"
      by (simp add: get_def)
    from Cons.IH [OF hf] show ?thesis
      by (simp add: Get g put_all_ignores_misses add.assoc)
  next
    case (Put k v)
    with Cons.prems have hf: "hit_free (snd (put s k v)) calls" by simp
    have m: "cache_misses (snd (put s k v)) = cache_misses s"
      using put_ignores_misses [where s = s and m = "cache_misses s" and k = k and v = v]
      by (metis CacheStrategy.select_convs(4) CacheStrategy.surjective CacheStrategy.update_convs(4) snd_conv)
    from Cons.IH [OF hf] show ?thesis
      by (simp add: Put split_beta m)
  qed
qed

text \<open>
  C5. Take any of the three policies, fresh, with a capacity of at least 1 (5 in the
  reference configuration), and any run of calls without a hit: every \<open>get\<close> misses and
  the keys put are pairwise distinct and non-empty. Then the run prints one eviction for
  each admitted key that no longer fits, in the order of admission, and nothing else:
  every eviction removes the earliest-admitted key still stored. At the end the store
  holds the last admitted entries, as many as the capacity allows, the queue of the
  policy holds their keys in the order of admission, and the misses are counted. With
  capacity 5 and six keys, the one eviction is that of the first key, at the sixth put.
\<close>

theorem fifo_degeneration:
  assumes "s0 = LIRSCache cap \<or> s0 = TinyFLUCache cap \<or> s0 = S3FIFOCache cap"
    and "1 \<le> size_t_of cap"
    and "hit_free s0 calls"
    and "distinct (map fst (admissions calls))" and "[] \<notin> set (map fst (admissions calls))"
    and "n = length (admissions calls) - size_t_of cap"
  shows "run s0 calls =
     (map (\<lambda>k. Line (policy_label (policy s0) @ '' Evicted: '' @ k))
          (map fst (take n (admissions calls))),
      s0\<lparr>cache := drop n (admissions calls),
         cache_misses := of_nat (lookups calls),
         policy := spec_fifo_policy (policy s0) (map fst (drop n (admissions calls)))\<rparr>)"
proof -
  note f = fresh_is_fifo_state [OF assms(1)]
  from assms(2) f have "1 \<le> size_t_of (capacity s0)" by simp
  from put_all_fifo [OF this assms(4,5)] f hit_free_run [OF assms(3)] assms(6)
  show ?thesis
    by (simp add: spec_fifo_state_def)
qed

theorem fifo_degeneration_witness:
  "(S3FIFOCache 5 = LIRSCache 5 \<or> S3FIFOCache 5 = TinyFLUCache 5 \<or> S3FIFOCache 5 = S3FIFOCache 5) \<and>
   1 \<le> size_t_of 5 \<and>
   hit_free (S3FIFOCache 5)
     [Put ''q1'' ''r1'', Put ''q2'' ''r2'', Get ''q9'', Put ''q3'' ''r3'', Put ''q4'' ''r4'',
      Put ''q5'' ''r5'', Put ''q6'' ''r6'', Put ''q7'' ''r7''] \<and>
   run (S3FIFOCache 5)
     [Put ''q1'' ''r1'', Put ''q2'' ''r2'', Get ''q9'', Put ''q3'' ''r3'', Put ''q4'' ''r4'',
      Put ''q5'' ''r5'', Put ''q6'' ''r6'', Put ''q7'' ''r7''] =
     ([Line ''S3-FIFO Evicted: q1'', Line ''S3-FIFO Evicted: q2''],
      \<lparr>capacity = 5,
       cache = [(''q3'', ''r3''), (''q4'', ''r4''), (''q5'', ''r5''), (''q6'', ''r6''),
                (''q7'', ''r7'')],
       cache_hits = 0, cache_misses = 1,
       policy = S3FIFO [''q3'', ''q4'', ''q5'', ''q6'', ''q7''] [] []\<rparr>) \<and>
   run (LIRSCache 5)
     [Put ''q1'' ''r1'', Put ''q2'' ''r2'', Put ''q3'' ''r3'', Put ''q4'' ''r4'',
      Put ''q5'' ''r5'', Put ''q6'' ''r6''] =
     ([Line ''LIRS Evicted: q1''],
      \<lparr>capacity = 5,
       cache = [(''q2'', ''r2''), (''q3'', ''r3''), (''q4'', ''r4''), (''q5'', ''r5''),
                (''q6'', ''r6'')],
       cache_hits = 0, cache_misses = 0,
       policy = LIRS [''q2'', ''q3'', ''q4'', ''q5'', ''q6''] []
                  [(''q2'', True), (''q3'', True), (''q4'', True), (''q5'', True),
                   (''q6'', True)]\<rparr>)"
proof -
  let ?calls = "[Put ''q1'' ''r1'', Put ''q2'' ''r2'', Get ''q9'', Put ''q3'' ''r3'',
                 Put ''q4'' ''r4'', Put ''q5'' ''r5'', Put ''q6'' ''r6'', Put ''q7'' ''r7'']"
  let ?six = "[Put ''q1'' ''r1'', Put ''q2'' ''r2'', Put ''q3'' ''r3'', Put ''q4'' ''r4'',
               Put ''q5'' ''r5'', Put ''q6'' ''r6'']"
  have kind: "S3FIFOCache 5 = LIRSCache 5 \<or> S3FIFOCache 5 = TinyFLUCache 5 \<or> S3FIFOCache 5 = S3FIFOCache 5"
    by simp
  have kind6: "LIRSCache 5 = LIRSCache 5 \<or> LIRSCache 5 = TinyFLUCache 5 \<or> LIRSCache 5 = S3FIFOCache 5"
    by simp
  have cap: "1 \<le> size_t_of 5"
    by (simp add: size_t_of_5)
  have free: "hit_free (S3FIFOCache 5) ?calls"
    by code_simp
  have free6: "hit_free (LIRSCache 5) ?six"
    by code_simp
  have dist: "distinct (map fst (admissions ?calls))" and dist6: "distinct (map fst (admissions ?six))"
    by simp_all
  have nonempty: "[] \<notin> set (map fst (admissions ?calls))"
    and nonempty6: "[] \<notin> set (map fst (admissions ?six))"
    by simp_all
  have n: "2 = length (admissions ?calls) - size_t_of 5"
    and n6: "1 = length (admissions ?six) - size_t_of 5"
    by (simp_all add: size_t_of_5)
  from fifo_degeneration [OF kind cap free dist nonempty n]
  have r: "run (S3FIFOCache 5) ?calls =
     ([Line ''S3-FIFO Evicted: q1'', Line ''S3-FIFO Evicted: q2''],
      \<lparr>capacity = 5,
       cache = [(''q3'', ''r3''), (''q4'', ''r4''), (''q5'', ''r5''), (''q6'', ''r6''),
                (''q7'', ''r7'')],
       cache_hits = 0, cache_misses = 1,
       policy = S3FIFO [''q3'', ''q4'', ''q5'', ''q6'', ''q7''] [] []\<rparr>)"
    by (simp add: S3FIFOCache_def)
  from fifo_degeneration [OF kind6 cap free6 dist6 nonempty6 n6]
  have r6: "run (LIRSCache 5) ?six =
     ([Line ''LIRS Evicted: q1''],
      \<lparr>capacity = 5,
       cache = [(''q2'', ''r2''), (''q3'', ''r3''), (''q4'', ''r4''), (''q5'', ''r5''),
                (''q6'', ''r6'')],
       cache_hits = 0, cache_misses = 0,
       policy = LIRS [''q2'', ''q3'', ''q4'', ''q5'', ''q6''] []
                  [(''q2'', True), (''q3'', True), (''q4'', True), (''q5'', True),
                   (''q6'', True)]\<rparr>)"
    by (simp add: LIRSCache_def)
  from kind cap free r r6 show ?thesis by simp
qed

text \<open>
  After five insertions, a hit on the first key and a sixth insertion, each policy evicts
  the second key, provided that key is not the empty text (for \<open>TinyFLUCache\<close>:
  whatever it is).
\<close>

lemma hit_then_insert_evicts_second:
  assumes "s0 = LIRSCache 5 \<or> s0 = TinyFLUCache 5 \<or> s0 = S3FIFOCache 5"
    and "distinct [k1, k2, k3, k4, k5, k6]"
    and "k2 \<noteq> [] \<or> s0 = TinyFLUCache 5"
    and "s5 = snd (put_all s0 [(k1, v1), (k2, v2), (k3, v3), (k4, v4), (k5, v5)])"
  shows "fst (get s5 k1) = v1 \<and>
         cache_hits (snd (get s5 k1)) = 1 \<and>
         fst (put (snd (get s5 k1)) k6 v6) =
           [Line (policy_label (policy s0) @ '' Evicted: '' @ k2)] \<and>
         cache (snd (put (snd (get s5 k1)) k6 v6)) =
           [(k1, v1), (k3, v3), (k4, v4), (k5, v5), (k6, v6)]"
proof -
  from assms(2) have d5: "distinct [k1, k2, k3, k4, k5]" by simp
  from assms(2) have ne: "k2 \<noteq> k1" "k3 \<noteq> k1" "k4 \<noteq> k1" "k5 \<noteq> k1" "k6 \<noteq> k1"
    "k3 \<noteq> k2" "k4 \<noteq> k2" "k5 \<noteq> k2"
    "k6 \<noteq> k2" "k6 \<noteq> k3" "k6 \<noteq> k4" "k6 \<noteq> k5" by auto
  have s5: "s5 = \<lparr>capacity = 5, cache = [(k1, v1), (k2, v2), (k3, v3), (k4, v4), (k5, v5)],
           cache_hits = 0, cache_misses = 0,
           policy = (admit_policy (admit_policy (admit_policy (admit_policy (admit_policy
                      (policy s0) k1) k2) k3) k4) k5)\<rparr>"
    using fill_five [OF assms(1) d5, of v1 v2 v3 v4 v5] assms(4) by simp
  have present: "map_of (cache s5) k1 = Some v1"
    by (simp add: s5)
  note hit = get_hit [OF present]
  from assms(1) assms(3) show ?thesis
    unfolding hit
    by (elim disjE)
      (simp_all add: s5 LIRSCache_def TinyFLUCache_def S3FIFOCache_def put_absent_full
        size_t_of_5 evict_def ne ne [symmetric])
qed

text \<open>
  C6. The second key of the run may be the empty text, as any \<open>std::string\<close> may.
  Then \<open>LIRSCache::evict\<close> pops it from the high list, takes the empty victim for "no
  victim" and erases nothing: the sixth insertion prints no eviction and leaves six
  entries in a store of capacity 5, the second key among them.
\<close>

theorem empty_second_key_not_evicted:
  "fst (get (snd (put_all (LIRSCache 5)
          [(''a'', ''1''), ([], ''2''), (''c'', ''3''), (''d'', ''4''), (''e'', ''5'')])) ''a'') = ''1'' \<and>
   put (snd (get (snd (put_all (LIRSCache 5)
          [(''a'', ''1''), ([], ''2''), (''c'', ''3''), (''d'', ''4''), (''e'', ''5'')])) ''a''))
       ''f'' ''6'' =
     ([], \<lparr>capacity = 5,
           cache = [(''a'', ''1''), ([], ''2''), (''c'', ''3''), (''d'', ''4''), (''e'', ''5''),
                    (''f'', ''6'')],
           cache_hits = 1, cache_misses = 0,
           policy = LIRS [''c'', ''d'', ''e'', ''a'', ''f''] []
                      [(''a'', True), ([], True), (''c'', True), (''d'', True), (''e'', True),
                       (''f'', True)]\<rparr>)"
  by code_simp

text \<open>
  C1. The size of the store is meant to stay within the capacity after every \<open>put\<close>.
  With the empty text as the first of six keys put into a \<open>LIRSCache\<close> or an
  \<open>S3FIFOCache\<close> of capacity 5, the eviction at the sixth call pops the empty key from
  the queue and erases nothing, and the store ends with six entries.
\<close>

theorem capacity_exceeded_by_empty_key:
  "put_all (LIRSCache 5)
     [([], ''0''), (''a'', ''1''), (''b'', ''2''), (''c'', ''3''), (''d'', ''4''), (''e'', ''5'')]
   = ([], \<lparr>capacity = 5,
           cache = [([], ''0''), (''a'', ''1''), (''b'', ''2''), (''c'', ''3''), (''d'', ''4''),
                    (''e'', ''5'')],
           cache_hits = 0, cache_misses = 0,
           policy = LIRS [''a'', ''b'', ''c'', ''d'', ''e''] []
                      [([], True), (''a'', True), (''b'', True), (''c'', True), (''d'', True),
                       (''e'', True)]\<rparr>) \<and>
   length (cache (snd (put_all (S3FIFOCache 5)
     [([], ''0''), (''a'', ''1''), (''b'', ''2''), (''c'', ''3''), (''d'', ''4''), (''e'', ''5'')])))
   = 6 \<and>
   size_t_of 5 = 5 \<and>
   \<not> length (cache (snd (put_all (LIRSCache 5)
       [([], ''0''), (''a'', ''1''), (''b'', ''2''), (''c'', ''3''), (''d'', ''4''), (''e'', ''5'')])))
     \<le> size_t_of (capacity (snd (put_all (LIRSCache 5)
       [([], ''0''), (''a'', ''1''), (''b'', ''2''), (''c'', ''3''), (''d'', ''4''), (''e'', ''5'')])))"
  by code_simp

section \<open>The capacity bound without the empty key\<close>

text \<open>Every call keeps a consistent state consistent, as long as the empty key stays out.\<close>

lemma fresh_consistent:
  assumes "s = LIRSCache cap \<or> s = TinyFLUCache cap \<or> s = S3FIFOCache cap"
  shows "consistent s"
  using assms by (auto simp: consistent_def LIRSCache_def TinyFLUCache_def S3FIFOCache_def)

lemma in_keys_iff: "map_of c k \<noteq> None \<longleftrightarrow> k \<in> set (map fst c)"
  by (simp add: map_of_eq_None_iff)

lemma update_policy_queued:
  assumes "distinct (queued p)" "flagged p" "k \<in> set (queued p)"
  shows "distinct (queued (update_policy p k)) \<and> set (queued (update_policy p k)) = set (queued p)
         \<and> flagged (update_policy p k) \<and> erases_any_victim (update_policy p k) = erases_any_victim p"
proof (cases p)
  case (LIRS high low ih)
  with assms have f: "map_of ih k = Some True" by (auto simp: list_all_iff)
  with LIRS assms show ?thesis by (auto simp: distinct_removeAll list_all_iff)
next
  case (TinyFLU q)
  with assms show ?thesis by (auto simp: distinct_removeAll)
next
  case (S3FIFO st mt lt)
  with assms show ?thesis by auto
qed

lemma update_consistent:
  assumes "consistent s" "map_of (cache s) k = Some v"
  shows "consistent (s\<lparr>policy := update_policy (policy s) k\<rparr>)"
proof -
  from assms(2) have "k \<in> set (map fst (cache s))"
    using in_keys_iff [of "cache s" k] by simp
  with assms(1) have "k \<in> set (queued (policy s))" by (simp add: consistent_def)
  with assms(1) update_policy_queued [of "policy s" k] show ?thesis
    by (simp add: consistent_def)
qed

lemma get_consistent:
  assumes "consistent s"
  shows "consistent (snd (get s k)) \<and> capacity (snd (get s k)) = capacity s
         \<and> erases_any_victim (policy (snd (get s k))) = erases_any_victim (policy s)"
proof (cases "map_of (cache s) k")
  case None
  with assms show ?thesis by (simp add: get_def consistent_def)
next
  case (Some v)
  have "k \<in> set (map fst (cache s))"
    using Some in_keys_iff [of "cache s" k] by simp
  with assms have q: "k \<in> set (queued (policy s))" by (simp add: consistent_def)
  from assms have "distinct (queued (policy s))" "flagged (policy s)"
    by (simp_all add: consistent_def)
  from update_policy_queued [OF this q] update_consistent [OF assms Some] assms
  show ?thesis by (simp add: get_hit [OF Some] consistent_def)
qed

lemma admit_policy_queued:
  assumes "distinct (queued p)" "flagged p" "k \<notin> set (queued p)"
  shows "distinct (queued (admit_policy p k)) \<and>
         set (queued (admit_policy p k)) = insert k (set (queued p)) \<and>
         flagged (admit_policy p k) \<and>
         erases_any_victim (admit_policy p k) = erases_any_victim p"
  using assms by (cases p) (auto simp: list_all_iff update_conv')

lemma length_delete_present:
  assumes "distinct (map fst al)" "k \<in> set (map fst al)"
  shows "Suc (length (AList.delete k al)) = length al"
  using assms
proof (induction al)
  case Nil
  then show ?case by simp
next
  case (Cons a al)
  show ?case
  proof (cases "fst a = k")
    case True
    with Cons.prems have "k \<notin> fst ` set al" by auto
    with True show ?thesis by (cases a) simp
  next
    case False
    with Cons show ?thesis by (cases a) auto
  qed
qed

lemma hd_tl_distinct:
  assumes "distinct xs" "xs \<noteq> []"
  shows "set (tl xs) = set xs - {hd xs} \<and> distinct (tl xs) \<and> hd xs \<in> set xs"
  using assms by (cases xs) auto

lemma erase_victim:
  assumes "distinct (map fst c)" "k \<in> set (map fst c)"
  shows "distinct (map fst (AList.delete k c)) \<and>
         set (map fst (AList.delete k c)) = set (map fst c) - {k} \<and>
         Suc (length (AList.delete k c)) = length c"
  using assms by (simp add: delete_keys length_delete_present distinct_removeAll)

lemma evict_TinyFLU:
  assumes "policy s = TinyFLU q" "q \<noteq> []"
  shows "evict s = ([Line (''TinyFLU Evicted: '' @ hd q)],
                    s\<lparr>cache := AList.delete (hd q) (cache s), policy := TinyFLU (tl q)\<rparr>)"
  using assms by (simp add: evict_def)

lemma evict_LIRS:
  assumes "policy s = LIRS high low ih" "high \<noteq> []" "hd high \<noteq> []"
  shows "evict s = ([Line (''LIRS Evicted: '' @ hd high)],
                    s\<lparr>cache := AList.delete (hd high) (cache s),
                      policy := LIRS (tl high) low (AList.delete (hd high) ih)\<rparr>)"
  using assms by (simp add: evict_def)

lemma evict_S3FIFO:
  assumes "policy s = S3FIFO st mt lt" "st @ mt @ lt \<noteq> []" "hd (st @ mt @ lt) \<noteq> []"
  shows "evict s = ([Line (''S3-FIFO Evicted: '' @ hd (st @ mt @ lt))],
                    s\<lparr>cache := AList.delete (hd (st @ mt @ lt)) (cache s),
                      policy := (if st \<noteq> [] then S3FIFO (tl st) mt lt
                                 else if mt \<noteq> [] then S3FIFO st (tl mt) lt
                                 else S3FIFO st mt (tl lt))\<rparr>)"
  using assms by (cases st; cases mt; cases lt) (auto simp: evict_def)

lemma queued_after_evict_S3FIFO:
  "st @ mt @ lt \<noteq> [] \<Longrightarrow>
   queued (if st \<noteq> [] then S3FIFO (tl st) mt lt
           else if mt \<noteq> [] then S3FIFO st (tl mt) lt
           else S3FIFO st mt (tl lt)) = tl (st @ mt @ lt)"
  by auto

lemma consistent_after_erase:
  assumes "consistent s" and "v \<in> set (map fst (cache s))"
    and "distinct (queued p)" and "set (queued p) = set (queued (policy s)) - {v}"
    and "flagged p" and "erases_any_victim p = erases_any_victim (policy s)"
    and "s1 = s\<lparr>cache := AList.delete v (cache s), policy := p\<rparr>"
  shows "consistent s1 \<and>
         Suc (length (cache s1)) = length (cache s) \<and>
         set (map fst (cache s1)) \<subseteq> set (map fst (cache s)) \<and>
         capacity s1 = capacity s \<and>
         erases_any_victim (policy s1) = erases_any_victim (policy s)"
proof -
  from assms(1) have dk: "distinct (map fst (cache s))"
    and qk: "set (queued (policy s)) = set (map fst (cache s))"
    and ne: "erases_any_victim (policy s) \<or> [] \<notin> set (map fst (cache s))"
    and le: "length (cache s) \<le> size_t_of (capacity s)"
    by (simp_all add: consistent_def)
  from length_delete_present [OF dk assms(2)]
  have len: "Suc (length (AList.delete v (cache s))) = length (cache s)" .
  with le have le1: "length (AList.delete v (cache s)) \<le> size_t_of (capacity s)" by simp
  have keys: "set (map fst (AList.delete v (cache s))) = set (map fst (cache s)) - {v}"
    by (simp add: delete_keys)
  have dk1: "distinct (map fst (AList.delete v (cache s)))"
    using dk by (simp add: delete_keys distinct_removeAll)
  from ne keys have ne1: "erases_any_victim (policy s) \<or> [] \<notin> set (map fst (AList.delete v (cache s)))"
    by blast
  have "consistent s1"
    unfolding consistent_def assms(7)
    using dk1 assms(3-6) qk keys ne1 le1 by simp
  moreover have "set (map fst (cache s1)) \<subseteq> set (map fst (cache s))"
    unfolding assms(7) using keys by auto
  ultimately show ?thesis using len assms(6) by (simp add: assms(7))
qed

lemma evict_consistent:
  assumes "consistent s" "cache s \<noteq> []"
  shows "consistent (snd (evict s)) \<and>
         Suc (length (cache (snd (evict s)))) = length (cache s) \<and>
         set (map fst (cache (snd (evict s)))) \<subseteq> set (map fst (cache s)) \<and>
         capacity (snd (evict s)) = capacity s \<and>
         erases_any_victim (policy (snd (evict s))) = erases_any_victim (policy s)"
proof -
  from assms(1) have dq: "distinct (queued (policy s))"
    and qk: "set (queued (policy s)) = set (map fst (cache s))"
    and fl: "flagged (policy s)"
    and ne: "erases_any_victim (policy s) \<or> [] \<notin> set (map fst (cache s))"
    by (simp_all add: consistent_def)
  from assms(2) qk have qne: "queued (policy s) \<noteq> []" by (cases "cache s") auto
  note ht = hd_tl_distinct [OF dq qne]
  let ?v = "hd (queued (policy s))"
  from ht qk have vk: "?v \<in> set (map fst (cache s))" by simp
  show ?thesis
  proof (cases "policy s")
    case (TinyFLU q)
    with qne have "q \<noteq> []" by simp
    note e = evict_TinyFLU [OF TinyFLU this]
    have "snd (evict s) = s\<lparr>cache := AList.delete ?v (cache s), policy := TinyFLU (tl q)\<rparr>"
      by (simp add: e TinyFLU)
    from consistent_after_erase [OF assms(1) vk _ _ _ _ this] ht TinyFLU
    show ?thesis by simp
  next
    case (LIRS high low ih)
    with fl have low: "low = []" and flags: "list_all (\<lambda>k. map_of ih k = Some True) high" by simp_all
    from qne LIRS low have hne: "high \<noteq> []" by simp
    from ne LIRS have nek: "[] \<notin> set (map fst (cache s))" by simp
    with vk LIRS low have "hd high \<noteq> []" by force
    note e = evict_LIRS [OF LIRS hne this]
    from ht LIRS low have "hd high \<notin> set (tl high)" by auto
    with flags hne have fl1: "list_all (\<lambda>k. map_of (AList.delete (hd high) ih) k = Some True) (tl high)"
      by (cases high) (auto simp: list_all_iff delete_conv')
    have "snd (evict s) = s\<lparr>cache := AList.delete ?v (cache s),
                             policy := LIRS (tl high) low (AList.delete (hd high) ih)\<rparr>"
      by (simp add: e LIRS low)
    from consistent_after_erase [OF assms(1) vk _ _ _ _ this] ht LIRS low fl1
    show ?thesis by simp
  next
    case (S3FIFO st mt lt)
    with qne have n: "st @ mt @ lt \<noteq> []" by simp
    from ne S3FIFO have "[] \<notin> set (map fst (cache s))" by simp
    with vk S3FIFO have "hd (st @ mt @ lt) \<noteq> []" by force
    note e = evict_S3FIFO [OF S3FIFO n this]
    let ?p = "if st \<noteq> [] then S3FIFO (tl st) mt lt
              else if mt \<noteq> [] then S3FIFO st (tl mt) lt else S3FIFO st mt (tl lt)"
    have q: "queued ?p = tl (queued (policy s))"
      using queued_after_evict_S3FIFO [OF n] S3FIFO by simp
    have "snd (evict s) = s\<lparr>cache := AList.delete ?v (cache s), policy := ?p\<rparr>"
      by (simp add: e S3FIFO)
    from consistent_after_erase [OF assms(1) vk _ _ _ _ this] ht S3FIFO
    show ?thesis unfolding q by simp
  qed
qed

lemma consistent_after_insert:
  assumes "consistent s" and "map_of (cache s) k = None"
    and "length (cache s) < size_t_of (capacity s)"
    and "erases_any_victim (policy s) \<or> k \<noteq> []"
    and "s1 = s\<lparr>cache := cache s @ [(k, v)], policy := admit_policy (policy s) k\<rparr>"
  shows "consistent s1 \<and> capacity s1 = capacity s \<and>
         erases_any_victim (policy s1) = erases_any_victim (policy s)"
proof -
  from assms(1) have dk: "distinct (map fst (cache s))"
    and dq: "distinct (queued (policy s))"
    and qk: "set (queued (policy s)) = set (map fst (cache s))"
    and fl: "flagged (policy s)"
    and ne: "erases_any_victim (policy s) \<or> [] \<notin> set (map fst (cache s))"
    by (simp_all add: consistent_def)
  from assms(2) have nk: "k \<notin> set (map fst (cache s))"
    using in_keys_iff [of "cache s" k] by simp
  with qk have "k \<notin> set (queued (policy s))" by simp
  note ad = admit_policy_queued [OF dq fl this]
  from ne assms(4) nk have "erases_any_victim (policy s) \<or> [] \<notin> set (map fst (cache s @ [(k, v)]))"
    by auto
  with ad dk nk qk assms(3) show ?thesis
    unfolding assms(5) consistent_def by simp
qed

lemma put_consistent:
  assumes "consistent s" and "1 \<le> size_t_of (capacity s)"
    and "erases_any_victim (policy s) \<or> k \<noteq> []"
  shows "consistent (snd (put s k v)) \<and> capacity (snd (put s k v)) = capacity s \<and>
         erases_any_victim (policy (snd (put s k v))) = erases_any_victim (policy s)"
proof (cases "map_of (cache s) k")
  case (Some w)
  have "k \<in> set (map fst (cache s))"
    using Some in_keys_iff [of "cache s" k] by simp
  with assms(1) have q: "k \<in> set (queued (policy s))" by (simp add: consistent_def)
  from assms(1) have "distinct (queued (policy s))" "flagged (policy s)"
    by (simp_all add: consistent_def)
  from update_policy_queued [OF this q] update_consistent [OF assms(1) Some]
  show ?thesis by (simp add: put_present [OF Some])
next
  case None
  show ?thesis
  proof (cases "size_t_of (capacity s) \<le> length (cache s)")
    case False
    then have room: "length (cache s) < size_t_of (capacity s)" by simp
    from consistent_after_insert [OF assms(1) None room assms(3) refl]
    show ?thesis by (simp add: put_absent_room [OF None room])
  next
    case True
    with assms(2) have "cache s \<noteq> []" by auto
    note ev = evict_consistent [OF assms(1) this]
    let ?s1 = "snd (evict s)"
    from ev have sub: "set (map fst (cache ?s1)) \<subseteq> set (map fst (cache s))" by simp
    from None have "k \<notin> set (map fst (cache s))"
      using in_keys_iff [of "cache s" k] by simp
    with sub have "k \<notin> set (map fst (cache ?s1))" by blast
    then have absent: "map_of (cache ?s1) k = None"
      using in_keys_iff [of "cache ?s1" k] by simp
    from assms(1) have "length (cache s) \<le> size_t_of (capacity s)"
      by (simp add: consistent_def)
    with ev have room: "length (cache ?s1) < size_t_of (capacity ?s1)" by simp
    from ev assms(3) have "erases_any_victim (policy ?s1) \<or> k \<noteq> []" by simp
    from consistent_after_insert [OF _ absent room this refl] ev
    show ?thesis
      by (simp add: put_absent_full [OF None True] update_absent [OF absent])
  qed
qed

lemma run_consistent:
  assumes "consistent s" and "1 \<le> size_t_of (capacity s)"
    and "erases_any_victim (policy s) \<or> [] \<notin> call_key ` set calls"
  shows "consistent (snd (run s calls)) \<and> capacity (snd (run s calls)) = capacity s"
  using assms
proof (induction calls arbitrary: s)
  case Nil
  then show ?case by simp
next
  case (Cons c calls)
  show ?case
  proof (cases c)
    case (Get k)
    from get_consistent [OF Cons.prems(1), of k] Cons.prems
    have "consistent (snd (run (snd (get s k)) calls)) \<and>
          capacity (snd (run (snd (get s k)) calls)) = capacity (snd (get s k))"
      by (intro Cons.IH) auto
    with get_consistent [OF Cons.prems(1), of k] Get show ?thesis by simp
  next
    case (Put k v)
    from Cons.prems(3) Put have key: "erases_any_victim (policy s) \<or> k \<noteq> []" by auto
    note pc = put_consistent [OF Cons.prems(1,2) key, of v]
    from pc Cons.prems
    have "consistent (snd (run (snd (put s k v)) calls)) \<and>
          capacity (snd (run (snd (put s k v)) calls)) = capacity (snd (put s k v))"
      by (intro Cons.IH) auto
    with pc Put show ?thesis by (simp add: split_beta)
  qed
qed

text \<open>
  The bound that does hold: from a fresh cache of capacity at least 1, after any run of
  \<open>get\<close> and \<open>put\<close> calls the store is within the capacity, provided no call names the
  empty key; for \<open>TinyFLUCache\<close> the proviso is not needed.
\<close>

lemma capacity_kept:
  assumes "s0 = LIRSCache cap \<or> s0 = TinyFLUCache cap \<or> s0 = S3FIFOCache cap"
    and "1 \<le> size_t_of cap"
    and "s0 = TinyFLUCache cap \<or> [] \<notin> call_key ` set calls"
  shows "length (cache (snd (run s0 calls))) \<le> size_t_of cap"
proof -
  have c: "capacity s0 = cap"
    using assms(1) by (auto simp: LIRSCache_def TinyFLUCache_def S3FIFOCache_def)
  have e: "erases_any_victim (policy s0) \<or> [] \<notin> call_key ` set calls"
    using assms(3) by (auto simp: TinyFLUCache_def)
  from run_consistent [OF fresh_consistent [OF assms(1)] _ e] assms(2) c
  show ?thesis by (auto simp: consistent_def)
qed

section \<open>The key of a submitted query\<close>

text \<open>
  C2. The store is meant to be keyed by the normalised (lower-cased) query text, so that
  two submissions that differ in letter case share one entry. \<open>process_query\<close> computes
  the normalised text and builds the plan from it, but it looks up and stores under the
  text as submitted: on a fresh system, \<open>SELECT 1\<close> followed by \<open>select 1\<close> gives two
  misses and two entries, both with the same result.
\<close>

theorem raw_query_is_cache_key:
  "parse ''SELECT 1'' = parse ''select 1'' \<and>
   process_all new_DatabaseSystem [''SELECT 1'', ''select 1''] =
     ([([Line ''Cache miss! Executing query...'',
         Line ''Lock acquired on table.'',
         Line ''Lock acquired on table.'',
         Line ''Transaction started.'',
         Line ''Transaction committed.'',
         Line ''Lock released on table.''],
        ''Result for OptimizedPlan(select 1)''),
       ([Line ''Cache miss! Executing query...'',
         Line ''Lock acquired on table.'',
         Line ''Lock acquired on table.'',
         Line ''Transaction started.'',
         Line ''Transaction committed.'',
         Line ''Lock released on table.''],
        ''Result for OptimizedPlan(select 1)'')],
      \<lparr>cache_strategy =
         \<lparr>capacity = 5,
          cache = [(''SELECT 1'', ''Result for OptimizedPlan(select 1)''),
                   (''select 1'', ''Result for OptimizedPlan(select 1)'')],
          cache_hits = 0, cache_misses = 2,
          policy = LIRS [''SELECT 1'', ''select 1''] []
                     [(''SELECT 1'', True), (''select 1'', True)]\<rparr>\<rparr>)"
  by code_simp

text \<open>
  In general: the normalised text reaches the engine only; \<open>get\<close> and \<open>put\<close> receive the
  submitted text.
\<close>

lemma process_query_uses_raw_text:
  "process_query db query =
     (let (cached_result, s1) = get (cache_strategy db) query
      in if cached_result \<noteq> []
         then ([Line ''Cache hit!''], cached_result, db\<lparr>cache_strategy := s1\<rparr>)
         else ([Line ''Cache miss! Executing query...'',
                Line ''Lock acquired on table.'',
                Line ''Lock acquired on table.'',
                Line ''Transaction started.'',
                Line ''Transaction committed.'',
                Line ''Lock released on table.'']
               @ fst (put s1 query (execute (optimize (parse query)))),
               execute (optimize (parse query)),
               db\<lparr>cache_strategy := snd (put s1 query (execute (optimize (parse query))))\<rparr>))"
  by (simp add: process_query_def split_beta Let_def)

section \<open>Eviction with empty queues\<close>

text \<open>
  C3, as stated for every policy, fails for \<open>TinyFLUCache\<close>: its \<open>evict\<close> has no
  fallback branch, and with an empty queue and one entry in the store it returns
  without touching the store.
\<close>

theorem TinyFLU_evict_no_fallback:
  "evict \<lparr>capacity = 5, cache = [(''a'', ''x'')], cache_hits = 0, cache_misses = 0,
          policy = TinyFLU []\<rparr> =
     ([], \<lparr>capacity = 5, cache = [(''a'', ''x'')], cache_hits = 0, cache_misses = 0,
           policy = TinyFLU []\<rparr>)"
  by code_simp

text \<open>
  The other two policies do fall back to the first key of the store, whatever the
  iteration order puts there, as long as that key is not the empty text.
\<close>

lemma evict_fallback:
  assumes "policy s = LIRS [] [] ih \<or> policy s = S3FIFO [] [] []"
    and "cache s = (k, v) # rest" and "k \<noteq> []"
  shows "fst (evict s) = [Line (policy_label (policy s) @ '' Evicted: '' @ k)] \<and>
         cache (snd (evict s)) = AList.delete k (cache s)"
  using assms by (auto simp: evict_def)

lemma evict_fallback_removes_one:
  assumes "policy s = LIRS [] [] ih \<or> policy s = S3FIFO [] [] []"
    and "cache s = (k, v) # rest" and "k \<noteq> []" and "distinct (map fst (cache s))"
  shows "cache (snd (evict s)) = rest"
proof -
  from assms(2,4) have "k \<notin> fst ` set rest" by auto
  then have "AList.delete k rest = rest" by simp
  with evict_fallback [OF assms(1-3)] assms(2) show ?thesis by simp
qed

lemma evict_fallback_skips_empty_key:
  "evict \<lparr>capacity = 5, cache = [([], ''x''), (''a'', ''y'')], cache_hits = 0, cache_misses = 0,
          policy = S3FIFO [] [] []\<rparr> =
     ([], \<lparr>capacity = 5, cache = [([], ''x''), (''a'', ''y'')], cache_hits = 0, cache_misses = 0,
           policy = S3FIFO [] [] []\<rparr>)"
  by code_simp

text \<open>
  The situation does not arise in a run: once the store holds an entry, the queues of
  the policy are never all empty when a call returns, from any state of which that is
  true (a fresh cache, for one). So \<open>put\<close>, the only caller of \<open>evict\<close>, never reaches
  the fallback.
\<close>

lemma update_policy_nonempty: "queued p \<noteq> [] \<Longrightarrow> queued (update_policy p k) \<noteq> []"
  by (cases p) (auto simp: Let_def)

lemma admit_policy_nonempty: "queued (admit_policy p k) \<noteq> []"
  by (cases p) auto

lemma get_keeps_queues_filled:
  assumes "cache s = [] \<or> queued (policy s) \<noteq> []"
  shows "cache (snd (get s k)) = [] \<or> queued (policy (snd (get s k))) \<noteq> []"
proof (cases "map_of (cache s) k")
  case None
  with assms show ?thesis by (simp add: get_def)
next
  case (Some v)
  then have "cache s \<noteq> []" by auto
  with assms have "queued (policy s) \<noteq> []" by simp
  then show ?thesis by (simp add: get_hit [OF Some] update_policy_nonempty)
qed

lemma put_keeps_queues_filled:
  assumes "cache s = [] \<or> queued (policy s) \<noteq> []"
  shows "queued (policy (snd (put s k v))) \<noteq> []"
proof (cases "map_of (cache s) k")
  case None
  then show ?thesis
    by (simp add: put_def admit_def split_beta Let_def admit_policy_nonempty)
next
  case (Some w)
  then have "cache s \<noteq> []" by auto
  with assms have "queued (policy s) \<noteq> []" by simp
  then show ?thesis by (simp add: put_present [OF Some] update_policy_nonempty)
qed

lemma fallback_never_reached:
  assumes "cache s = [] \<or> queued (policy s) \<noteq> []"
  shows "cache (snd (run s calls)) = [] \<or> queued (policy (snd (run s calls))) \<noteq> []"
  using assms
proof (induction calls arbitrary: s)
  case Nil
  then show ?case by simp
next
  case (Cons c calls)
  show ?case
  proof (cases c)
    case (Get k)
    from Cons.IH [OF get_keeps_queues_filled [OF Cons.prems, of k]] Get
    show ?thesis by simp
  next
    case (Put k v)
    from put_keeps_queues_filled [OF Cons.prems, of k v]
    have "cache (snd (put s k v)) = [] \<or> queued (policy (snd (put s k v))) \<noteq> []" by simp
    from Cons.IH [OF this] Put show ?thesis by (simp add: split_beta)
  qed
qed


text \<open>
  C3, as the code has it. Let \<open>evict\<close> be called with every queue of the policy empty and
  a store whose iteration starts at the key \<open>k\<close>. \<open>TinyFLUCache::evict\<close> acts on a non-empty
  queue only: it prints nothing and leaves the state as it is. \<open>LIRSCache::evict\<close> and
  \<open>S3FIFOCache::evict\<close> fall back to \<open>k\<close>, provided it is not the empty text: they print
  its eviction and erase exactly that entry, the queues stay empty, the capacity and the
  counters are untouched.
\<close>

theorem evict_with_empty_queues:
  assumes "queued (policy s) = []" and "cache s = (k, v) # rest"
    and "distinct (map fst (cache s))"
  shows "(is_TinyFLU (policy s) \<longrightarrow> evict s = ([], s)) \<and>
         (\<not> is_TinyFLU (policy s) \<and> k \<noteq> [] \<longrightarrow>
            fst (evict s) = [Line (policy_label (policy s) @ '' Evicted: '' @ k)] \<and>
            cache (snd (evict s)) = rest \<and>
            queued (policy (snd (evict s))) = [] \<and>
            capacity (snd (evict s)) = capacity s \<and>
            cache_hits (snd (evict s)) = cache_hits s \<and>
            cache_misses (snd (evict s)) = cache_misses s)"
proof (cases "policy s")
  case (TinyFLU q)
  with assms(1) show ?thesis by (simp add: evict_def)
next
  case (LIRS high low ih)
  with assms(1) have p: "policy s = LIRS [] [] ih" by simp
  then have "policy s = LIRS [] [] ih \<or> policy s = S3FIFO [] [] []" by simp
  note r = evict_fallback_removes_one [OF this assms(2) _ assms(3)]
    and f = evict_fallback [OF this assms(2)]
  from r f p assms(2) show ?thesis by (auto simp: evict_def)
next
  case (S3FIFO st mt lt)
  with assms(1) have p: "policy s = S3FIFO [] [] []" by simp
  then have "policy s = LIRS [] [] [] \<or> policy s = S3FIFO [] [] []" by simp
  note r = evict_fallback_removes_one [OF this assms(2) _ assms(3)]
    and f = evict_fallback [OF this assms(2)]
  from r f p assms(2) show ?thesis by (auto simp: evict_def)
qed

theorem evict_with_empty_queues_witness:
  "evict \<lparr>capacity = 5, cache = [(''a'', ''x''), (''b'', ''y'')], cache_hits = 0, cache_misses = 0,
          policy = TinyFLU []\<rparr> =
     ([], \<lparr>capacity = 5, cache = [(''a'', ''x''), (''b'', ''y'')], cache_hits = 0, cache_misses = 0,
           policy = TinyFLU []\<rparr>) \<and>
   fst (evict \<lparr>capacity = 5, cache = [(''a'', ''x''), (''b'', ''y'')], cache_hits = 0,
               cache_misses = 0, policy = S3FIFO [] [] []\<rparr>) = [Line ''S3-FIFO Evicted: a''] \<and>
   cache (snd (evict \<lparr>capacity = 5, cache = [(''a'', ''x''), (''b'', ''y'')], cache_hits = 0,
               cache_misses = 0, policy = S3FIFO [] [] []\<rparr>)) = [(''b'', ''y'')] \<and>
   fst (evict \<lparr>capacity = 5, cache = [(''a'', ''x''), (''b'', ''y'')], cache_hits = 0,
               cache_misses = 0, policy = LIRS [] [] []\<rparr>) = [Line ''LIRS Evicted: a''] \<and>
   cache (snd (evict \<lparr>capacity = 5, cache = [(''a'', ''x''), (''b'', ''y'')], cache_hits = 0,
               cache_misses = 0, policy = LIRS [] [] []\<rparr>)) = [(''b'', ''y'')]"
proof -
  let ?c = "[(''a'', ''x''), (''b'', ''y'')]"
  let ?t = "\<lparr>capacity = 5, cache = ?c, cache_hits = 0, cache_misses = 0, policy = TinyFLU []\<rparr>"
  let ?s = "\<lparr>capacity = 5, cache = ?c, cache_hits = 0, cache_misses = 0, policy = S3FIFO [] [] []\<rparr>"
  let ?l = "\<lparr>capacity = 5, cache = ?c, cache_hits = 0, cache_misses = 0, policy = LIRS [] [] []\<rparr>"
  have qt: "queued (policy ?t) = []" and qs: "queued (policy ?s) = []"
    and ql: "queued (policy ?l) = []" by simp_all
  have ct: "cache ?t = (''a'', ''x'') # [(''b'', ''y'')]"
    and cs: "cache ?s = (''a'', ''x'') # [(''b'', ''y'')]"
    and cl: "cache ?l = (''a'', ''x'') # [(''b'', ''y'')]" by simp_all
  have dt: "distinct (map fst (cache ?t))" and ds: "distinct (map fst (cache ?s))"
    and dl: "distinct (map fst (cache ?l))" by simp_all
  from evict_with_empty_queues [OF qt ct dt] evict_with_empty_queues [OF qs cs ds]
    evict_with_empty_queues [OF ql cl dl]
  show ?thesis by simp
qed

section \<open>Selecting a strategy\<close>

text \<open>\<open>trim\<close> removes the spaces at both ends, and nothing else.\<close>

lemma find_first_not_of_None:
  "find_first_not_of str c = None \<longleftrightarrow> (\<forall>x\<in>set str. x = c)"
  by (induction str) auto

lemma find_first_not_of_Some:
  "find_first_not_of str c = Some i \<Longrightarrow> i = length (takeWhile (\<lambda>x. x = c) str)"
  by (induction str arbitrary: i) (auto split: if_splits)

lemma rev_dropWhile_rev:
  "rev (dropWhile p (rev r)) = take (length r - length (takeWhile p (rev r))) r"
  by (simp add: dropWhile_eq_drop rev_drop)

lemma takeWhile_rev_short:
  assumes "x \<in> set r" "\<not> p x"
  shows "length (takeWhile p (rev r)) < length r"
proof -
  have "length (takeWhile p (rev r)) \<le> length (rev r)" by (rule length_takeWhile_le)
  moreover have "length (takeWhile p (rev r)) \<noteq> length (rev r)"
  proof
    assume "length (takeWhile p (rev r)) = length (rev r)"
    then have "takeWhile p (rev r) = rev r"
      by (metis takeWhile_dropWhile_id append_eq_conv_conj take_all order_refl)
    then have "\<forall>y\<in>set (rev r). p y" by (simp only: takeWhile_eq_all_conv)
    with assms show False by simp
  qed
  ultimately show ?thesis by simp
qed

lemma substr_strip:
  assumes "x \<in> set xs" "\<not> p x"
  shows "take (length xs - 1 - length (takeWhile p (rev xs)) - length (takeWhile p xs) + 1)
              (drop (length (takeWhile p xs)) xs) = strip p xs"
proof -
  define a where "a = takeWhile p xs"
  define r where "r = dropWhile p xs"
  have xs: "xs = a @ r" by (simp add: a_def r_def)
  have "x \<notin> set a" using assms(2) unfolding a_def by (auto dest: set_takeWhileD)
  with assms(1) xs have xr: "x \<in> set r" by auto
  have "rev xs = rev r @ rev a" using xs by simp
  moreover have "x \<in> set (rev r)" using xr by simp
  ultimately have tw: "takeWhile p (rev xs) = takeWhile p (rev r)"
    using assms(2) by simp
  have short: "length (takeWhile p (rev r)) < length r"
    using xr assms(2) by (rule takeWhile_rev_short)
  have len: "length xs = length a + length r" using xs by simp
  have "drop (length (takeWhile p xs)) xs = r"
    by (simp add: r_def dropWhile_eq_drop)
  moreover have "length xs - 1 - length (takeWhile p (rev xs)) - length (takeWhile p xs) + 1
      = length r - length (takeWhile p (rev r))"
    using tw short len by (simp add: a_def)
  moreover have "strip p xs = take (length r - length (takeWhile p (rev r))) r"
    by (simp add: strip_def r_def rev_dropWhile_rev)
  ultimately show ?thesis by simp
qed

lemma trim_strip_spaces: "trim str = strip_spaces str"
proof (cases "\<forall>x\<in>set str. x = CHR '' ''")
  case True
  then have "find_first_not_of str CHR '' '' = None"
    by (simp add: find_first_not_of_None)
  moreover from True have "dropWhile (\<lambda>c. c = CHR '' '') str = []" by simp
  ultimately show ?thesis
    by (simp add: trim_def strip_spaces_def strip_def del: dropWhile_eq_Nil_conv)
next
  case False
  then obtain x where x: "x \<in> set str" "\<not> x = CHR '' ''" by blast
  from False obtain i where i: "find_first_not_of str CHR '' '' = Some i"
    using find_first_not_of_None [of str "CHR '' ''"]
    by (cases "find_first_not_of str CHR '' ''") auto
  from False have "\<not> (\<forall>x\<in>set (rev str). x = CHR '' '')" by simp
  then obtain j where j: "find_first_not_of (rev str) CHR '' '' = Some j"
    using find_first_not_of_None [of "rev str" "CHR '' ''"]
    by (cases "find_first_not_of (rev str) CHR '' ''") auto
  have iv: "i = length (takeWhile (\<lambda>x. x = CHR '' '') str)"
    using i by (rule find_first_not_of_Some)
  have jv: "j = length (takeWhile (\<lambda>x. x = CHR '' '') (rev str))"
    using j by (rule find_first_not_of_Some)
  have "trim str = take (length str - 1 - j - i + 1) (drop i str)"
    using i j by (simp add: trim_def find_last_not_of_def substr_def)
  also have "\<dots> = strip (\<lambda>x. x = CHR '' '') str"
    unfolding iv jv using x by (rule substr_strip)
  finally show ?thesis by (simp add: strip_spaces_def)
qed

text \<open>
  C4, as the code has it. Let \<open>name\<close> be the input with the space characters at both
  ends removed (no other character is removed) and the upper-case ASCII letters lowered.
  If \<open>name\<close> is \<open>lirs\<close>, \<open>tinyflu\<close>, \<open>s3fifo\<close> or \<open>s3-fifo\<close>, the call prints the
  confirmation and the system holds a fresh \<open>LIRSCache\<close>, \<open>TinyFLUCache\<close>, \<open>S3FIFOCache\<close>,
  \<open>S3FIFOCache\<close> of capacity 5. For every other \<open>name\<close> the last line printed is the
  invalid-selection notice.
\<close>

theorem set_cache_strategy_by_name:
  assumes "name = map tolower (strip_spaces strategy)"
    and "out = [Raw_input_info strategy,
                Line (''DEBUG: Processed strategy (after trim and lowercase): ''
                      @ [CHR 0x27] @ name @ [CHR 0x27])]"
  shows "(name = ''lirs'' \<longrightarrow>
            set_cache_strategy db strategy =
              (out @ [Line ''Caching strategy set to LIRS.''],
               Inr (db\<lparr>cache_strategy := LIRSCache 5\<rparr>))) \<and>
         (name = ''tinyflu'' \<longrightarrow>
            set_cache_strategy db strategy =
              (out @ [Line ''Caching strategy set to TinyFLU.''],
               Inr (db\<lparr>cache_strategy := TinyFLUCache 5\<rparr>))) \<and>
         (name = ''s3fifo'' \<or> name = ''s3-fifo'' \<longrightarrow>
            set_cache_strategy db strategy =
              (out @ [Line ''Caching strategy set to S3-FIFO.''],
               Inr (db\<lparr>cache_strategy := S3FIFOCache 5\<rparr>))) \<and>
         (name \<notin> set [''lirs'', ''tinyflu'', ''s3fifo'', ''s3-fifo''] \<longrightarrow>
            fst (set_cache_strategy db strategy) =
              out @ [Line ''Invalid caching strategy selected. Defaulting to LIRS.''])"
  using assms by (simp add: set_cache_strategy_def trim_strip_spaces Let_def)

theorem set_cache_strategy_by_name_witness:
  "map tolower (strip_spaces ''  LIRS '') = ''lirs'' \<and>
   snd (set_cache_strategy new_DatabaseSystem ''  LIRS '') =
     Inr (new_DatabaseSystem\<lparr>cache_strategy := LIRSCache 5\<rparr>) \<and>
   map tolower (strip_spaces '' TinyFlu'') = ''tinyflu'' \<and>
   snd (set_cache_strategy new_DatabaseSystem '' TinyFlu'') =
     Inr (new_DatabaseSystem\<lparr>cache_strategy := TinyFLUCache 5\<rparr>) \<and>
   map tolower (strip_spaces ''S3FIFO'') = ''s3fifo'' \<and>
   snd (set_cache_strategy new_DatabaseSystem ''S3FIFO'') =
     Inr (new_DatabaseSystem\<lparr>cache_strategy := S3FIFOCache 5\<rparr>) \<and>
   map tolower (strip_spaces ''s3-fifo   '') = ''s3-fifo'' \<and>
   snd (set_cache_strategy new_DatabaseSystem ''s3-fifo   '') =
     Inr (new_DatabaseSystem\<lparr>cache_strategy := S3FIFOCache 5\<rparr>) \<and>
   map tolower (strip_spaces ''TinyLFU'') = ''tinylfu'' \<and>
   ''tinylfu'' \<notin> set [''lirs'', ''tinyflu'', ''s3fifo'', ''s3-fifo''] \<and>
   last (fst (set_cache_strategy new_DatabaseSystem ''TinyLFU'')) =
     Line ''Invalid caching strategy selected. Defaulting to LIRS.''"
proof -
  have n1: "''lirs'' = map tolower (strip_spaces ''  LIRS '')" by code_simp
  have n2: "''tinyflu'' = map tolower (strip_spaces '' TinyFlu'')" by code_simp
  have n3: "''s3fifo'' = map tolower (strip_spaces ''S3FIFO'')" by code_simp
  have n4: "''s3-fifo'' = map tolower (strip_spaces ''s3-fifo   '')" by code_simp
  have n5: "''tinylfu'' = map tolower (strip_spaces ''TinyLFU'')" by code_simp
  have other: "''tinylfu'' \<notin> set [''lirs'', ''tinyflu'', ''s3fifo'', ''s3-fifo'']" by simp
  from set_cache_strategy_by_name [OF n1 refl, of new_DatabaseSystem]
  have r1: "snd (set_cache_strategy new_DatabaseSystem ''  LIRS '') =
     Inr (new_DatabaseSystem\<lparr>cache_strategy := LIRSCache 5\<rparr>)" by simp
  from set_cache_strategy_by_name [OF n2 refl, of new_DatabaseSystem]
  have r2: "snd (set_cache_strategy new_DatabaseSystem '' TinyFlu'') =
     Inr (new_DatabaseSystem\<lparr>cache_strategy := TinyFLUCache 5\<rparr>)" by simp
  from set_cache_strategy_by_name [OF n3 refl, of new_DatabaseSystem]
  have r3: "snd (set_cache_strategy new_DatabaseSystem ''S3FIFO'') =
     Inr (new_DatabaseSystem\<lparr>cache_strategy := S3FIFOCache 5\<rparr>)" by simp
  from set_cache_strategy_by_name [OF n4 refl, of new_DatabaseSystem]
  have r4: "snd (set_cache_strategy new_DatabaseSystem ''s3-fifo   '') =
     Inr (new_DatabaseSystem\<lparr>cache_strategy := S3FIFOCache 5\<rparr>)" by simp
  from set_cache_strategy_by_name [OF n5 refl, of new_DatabaseSystem] other
  have r5: "last (fst (set_cache_strategy new_DatabaseSystem ''TinyLFU'')) =
     Line ''Invalid caching strategy selected. Defaulting to LIRS.''" by simp
  from n1 n2 n3 n4 n5 other r1 r2 r3 r4 r5 show ?thesis by simp
qed

text \<open>
  C4, as the specification words it ("surrounding whitespace ignored"), fails on a
  name with a tab in front: the specification's normalisation gives \<open>tinyflu\<close>, the code
  keeps the tab, takes the invalid branch and does not select \<open>TinyFLUCache\<close>.
\<close>

theorem tab_is_not_trimmed:
  "spec_normalize_name (CHR 0x09 # ''tinyflu'') = ''tinyflu'' \<and>
   set_cache_strategy new_DatabaseSystem (CHR 0x09 # ''tinyflu'') =
     ([Raw_input_info (CHR 0x09 # ''tinyflu''),
       Line (''DEBUG: Processed strategy (after trim and lowercase): ''
             @ [CHR 0x27] @ (CHR 0x09 # ''tinyflu'') @ [CHR 0x27]),
       Line ''Invalid caching strategy selected. Defaulting to LIRS.''],
      Inl Double_delete) \<and>
   snd (set_cache_strategy new_DatabaseSystem (CHR 0x09 # ''tinyflu'')) \<noteq>
     Inr (new_DatabaseSystem\<lparr>cache_strategy := TinyFLUCache 5\<rparr>)"
  by code_simp

text \<open>
  C7. A swap is meant to leave a fresh cache whatever the name. For a name that is not
  recognised the function has deleted the old strategy on entry and deletes the same
  pointer again before it assigns the default: the call ends in the double delete, here
  after one query under the initial strategy.
\<close>

theorem invalid_name_double_delete:
  "set_cache_strategy (snd (snd (process_query new_DatabaseSystem ''select 1''))) ''redis'' =
     ([Raw_input_info ''redis'',
       Line (''DEBUG: Processed strategy (after trim and lowercase): ''
             @ [CHR 0x27] @ ''redis'' @ [CHR 0x27]),
       Line ''Invalid caching strategy selected. Defaulting to LIRS.''],
      Inl Double_delete)"
  by code_simp

text \<open>
  Whenever the call does return a system, its cache is one of the three fresh ones:
  no entry, both counters zero, all queues empty.
\<close>

lemma set_cache_strategy_resets:
  assumes "snd (set_cache_strategy db strategy) = Inr db'"
  shows "cache_strategy db' = LIRSCache 5 \<or> cache_strategy db' = TinyFLUCache 5
         \<or> cache_strategy db' = S3FIFOCache 5"
  using assms by (auto simp: set_cache_strategy_def Let_def split: if_splits)

lemma fresh_cache_is_empty:
  assumes "s = LIRSCache cap \<or> s = TinyFLUCache cap \<or> s = S3FIFOCache cap"
  shows "cache s = [] \<and> cache_hits s = 0 \<and> cache_misses s = 0 \<and>
         policy s \<in> {LIRS [] [] [], TinyFLU [], S3FIFO [] [] []}"
  using assms by (auto simp: LIRSCache_def TinyFLUCache_def S3FIFOCache_def)

end
